theory Spec2Isabelle
  imports Main
begin

section \<open>Path and environment helpers of rtPathUtils.cpp (POSIX build)\<close>

text \<open>
  The embedding follows the branches of the source that are compiled when neither
  \<^verbatim>\<open>WIN32\<close> nor \<^verbatim>\<open>RT_PLATFORM_WINDOWS\<close> is defined. Strings are lists of
  characters and positions count characters. The source keeps positions in
  \<^verbatim>\<open>int32_t\<close>; they are unbounded integers here, which agrees with the source for
  every string shorter than \<open>2^31\<close> characters.
\<close>

subsection \<open>Result codes\<close>

datatype rtError = RT_OK | RT_FAIL | RT_ERROR

subsection \<open>The string class\<close>

text \<open>
  \<^verbatim>\<open>rtString\<close> is declared in \<^verbatim>\<open>rtString.h\<close>, which is not among the sources at
  hand; the member functions that \<^verbatim>\<open>rtPathUtils.cpp\<close> calls are modelled below from
  the description of the path string type: "supports suffix test, append, substring
  extraction, and first-match character search from an offset".
\<close>

definition rtString_of_cstr :: "string option \<Rightarrow> string" where
  \<comment> \<open>Modelled from the spec: assignment of a \<^verbatim>\<open>const char*\<close> to an \<^verbatim>\<open>rtString\<close>.
      \<open>None\<close> is the null pointer; "returns the raw value or an empty value if unset".\<close>
  "rtString_of_cstr p = (case p of None \<Rightarrow> [] | Some s \<Rightarrow> s)"

definition rtString_isEmpty :: "string \<Rightarrow> bool" where
  \<comment> \<open>Modelled from the spec: \<^verbatim>\<open>rtString::isEmpty\<close>, missing with the class.\<close>
  "rtString_isEmpty s = (s = [])"

definition rtString_endsWith :: "string \<Rightarrow> string \<Rightarrow> bool" where
  \<comment> \<open>Modelled from the spec: \<^verbatim>\<open>rtString::endsWith\<close>, the "suffix test".\<close>
  "rtString_endsWith s suffix =
     (length suffix \<le> length s \<and> drop (length s - length suffix) s = suffix)"

definition rtString_append :: "string \<Rightarrow> string \<Rightarrow> string" where
  \<comment> \<open>Modelled from the spec: \<^verbatim>\<open>rtString::append\<close> and \<^verbatim>\<open>operator+\<close>.\<close>
  "rtString_append s t = s @ t"

definition rtString_find :: "string \<Rightarrow> nat \<Rightarrow> char \<Rightarrow> int" where
  \<comment> \<open>Modelled from the spec: \<^verbatim>\<open>rtString::find(pos, ch)\<close>, the "first-match character
      search from an offset": the least position not below \<open>pos\<close> that holds \<open>ch\<close>,
      and \<open>-1\<close> when there is none.\<close>
  "rtString_find s pos ch =
     (if ch \<in> set (drop pos s)
      then int (pos + length (takeWhile (\<lambda>c. c \<noteq> ch) (drop pos s)))
      else - 1)"

definition rtString_substring :: "string \<Rightarrow> nat \<Rightarrow> nat \<Rightarrow> string" where
  \<comment> \<open>Modelled from the spec: \<^verbatim>\<open>rtString::substring(pos, len)\<close>, the "substring
      extraction": the \<open>len\<close> characters that start at \<open>pos\<close>. The description gives a
      length of zero no other meaning, so none is modelled.\<close>
  "rtString_substring s pos len = take len (drop pos s)"

subsection \<open>The operating system\<close>

text \<open>
  The environment block of the process maps a variable name to its value;
  \<^verbatim>\<open>getenv\<close> returns a null pointer for a name that is not set. The outcome of
  \<^verbatim>\<open>getcwd(NULL, 0)\<close> is a freshly allocated string, or a null pointer on failure.
\<close>

type_synonym environ = "string \<Rightarrow> string option"

definition getenv :: "environ \<Rightarrow> string \<Rightarrow> string option" where
  "getenv env name = env name"

subsection \<open>rtGetCurrentDirectory, rtEnsureTrailingPathSeparator, rtGetEnv\<close>

text \<open>
  A function that writes through an \<^verbatim>\<open>rtString&\<close> parameter takes the caller's string
  and returns the result code together with the string as it stands afterwards.
\<close>

definition rtGetCurrentDirectory :: "string option \<Rightarrow> string \<Rightarrow> rtError \<times> string" where
  "rtGetCurrentDirectory getcwd_result d =
     (case getcwd_result of
        Some p \<Rightarrow> (RT_OK, p)
      | None \<Rightarrow> (RT_OK, d))"

definition rtEnsureTrailingPathSeparator :: "string \<Rightarrow> rtError \<times> string" where
  "rtEnsureTrailingPathSeparator d =
     (if \<not> rtString_endsWith d ''/'' then (RT_OK, rtString_append d ''/'')
      else (RT_OK, d))"

definition rtGetEnv :: "environ \<Rightarrow> string \<Rightarrow> string \<Rightarrow> rtError \<times> string" where
  "rtGetEnv env e v = (RT_OK, rtString_of_cstr (getenv env e))"

definition rtGetHomeDirectory :: "environ \<Rightarrow> string \<Rightarrow> rtError \<times> string" where
  "rtGetHomeDirectory env d =
     (let homeDir = ''HOME'' in
      case rtGetEnv env homeDir d of
        (r, d') \<Rightarrow> if r = RT_OK then rtEnsureTrailingPathSeparator d' else (RT_FAIL, d'))"

definition rtGetEnvAsString :: "environ \<Rightarrow> string \<Rightarrow> string option \<Rightarrow> string" where
  "rtGetEnvAsString env name defaultValue =
     (let v = snd (rtGetEnv env name []) in
      if rtString_isEmpty v then rtString_of_cstr defaultValue else v)"

subsection \<open>rtIsPathAbsolute\<close>

text \<open>
  The first overload takes a C string, which may be the null pointer (\<open>None\<close>). Reading
  \<^verbatim>\<open>path[0]\<close> of an empty C string yields its terminating zero byte.
\<close>

definition cstr_first :: "string \<Rightarrow> char" where
  "cstr_first s = (case s of [] \<Rightarrow> CHR 0x00 | c # _ \<Rightarrow> c)"

definition rtIsPathAbsolute_cstr :: "string option \<Rightarrow> bool" where
  "rtIsPathAbsolute_cstr path =
     (case path of None \<Rightarrow> False | Some s \<Rightarrow> cstr_first s = CHR ''/'')"

definition rtString_cString :: "string \<Rightarrow> string option" where
  \<comment> \<open>Modelled from the spec: \<^verbatim>\<open>rtString::cString\<close>, the characters as a C string.\<close>
  "rtString_cString s = Some s"

definition rtIsPathAbsolute :: "string \<Rightarrow> bool" where
  "rtIsPathAbsolute path =
     (if rtString_isEmpty path then False
      else rtIsPathAbsolute_cstr (rtString_cString path))"

subsection \<open>rtResolveRelativePath\<close>

lemma takeWhile_stops_before_end:
  "ch \<in> set xs \<Longrightarrow> length (takeWhile (\<lambda>c. c \<noteq> ch) xs) < length xs"
  by (induction xs) auto

lemma rtString_find_range:
  "rtString_find s pos ch = - 1 \<or>
   (int pos \<le> rtString_find s pos ch \<and> rtString_find s pos ch < int (length s))"
proof (cases "ch \<in> set (drop pos s)")
  case True
  from takeWhile_stops_before_end [OF True] True show ?thesis
    by (simp add: rtString_find_def)
next
  case False
  then show ?thesis by (simp add: rtString_find_def)
qed

text \<open>
  The loop \<^verbatim>\<open>while (pos != -1) { lastPos = pos; pos = baseUrl.find(lastPos + 1, '/'); }\<close>
  with its two variables as arguments; the value is \<^verbatim>\<open>lastPos\<close> at the exit.
\<close>

function last_slash_loop :: "string \<Rightarrow> int \<Rightarrow> int \<Rightarrow> int" where
  "last_slash_loop baseUrl lastPos pos =
     (if pos \<noteq> - 1
      then last_slash_loop baseUrl pos (rtString_find baseUrl (nat (pos + 1)) (CHR ''/''))
      else lastPos)"
  by pat_completeness auto
termination
proof (relation "measure (\<lambda>(baseUrl, lastPos, pos).
    if pos = - 1 then 0 else Suc (nat (int (length baseUrl) + 1 - pos)))")
  show "wf (measure (\<lambda>(baseUrl, lastPos, pos).
    if pos = - 1 then 0 else Suc (nat (int (length baseUrl) + 1 - pos))))"
    by simp
next
  fix baseUrl :: string and lastPos pos :: int
  assume "pos \<noteq> - 1"
  then show "((baseUrl, pos, rtString_find baseUrl (nat (pos + 1)) (CHR ''/'')),
              (baseUrl, lastPos, pos))
    \<in> measure (\<lambda>(baseUrl, lastPos, pos).
         if pos = - 1 then 0 else Suc (nat (int (length baseUrl) + 1 - pos)))"
    using rtString_find_range [of baseUrl "nat (pos + 1)" "CHR ''/''"]
    by (auto split: if_splits)
qed

definition rtResolveRelativePath :: "string \<Rightarrow> string \<Rightarrow> string" where
  "rtResolveRelativePath relative base =
     (let baseUrl = base;
          pos = rtString_find baseUrl 0 (CHR ''#'');
          baseUrl = (if pos \<noteq> - 1 then rtString_substring baseUrl 0 (nat pos) else baseUrl);
          pos = rtString_find baseUrl 0 (CHR ''?'');
          baseUrl = (if pos \<noteq> - 1 then rtString_substring baseUrl 0 (nat pos) else baseUrl);
          lastPos = last_slash_loop baseUrl (- 1) (rtString_find baseUrl 0 (CHR ''/''));
          path = (if lastPos \<noteq> - 1 then rtString_substring baseUrl 0 (nat (lastPos + 1))
                  else [])
      in rtString_append path relative)"

text \<open>
  The resolution as the specification words it: cut the base at its first \<open>#\<close>, cut what
  is left at its first \<open>?\<close>, keep the part up to and including the last \<open>/\<close> (nothing
  when there is no \<open>/\<close>), and put the relative path behind it. \<open>upto_last ch s\<close> keeps
  the characters of \<open>s\<close> for as long as an occurrence of \<open>ch\<close> is still to come.
\<close>

fun upto_last :: "char \<Rightarrow> string \<Rightarrow> string" where
  "upto_last ch [] = []"
| "upto_last ch (c # cs) = (if ch \<in> set (c # cs) then c # upto_last ch cs else [])"

definition truncate_at :: "char \<Rightarrow> string \<Rightarrow> string" where
  "truncate_at ch s = takeWhile (\<lambda>c. c \<noteq> ch) s"

definition resolveRelative_spec :: "string \<Rightarrow> string \<Rightarrow> string" where
  "resolveRelative_spec r b =
     upto_last (CHR ''/'') (truncate_at (CHR ''?'') (truncate_at (CHR ''#'') b)) @ r"

subsection \<open>The module directory list\<close>

definition rtModuleDirSeparator :: string where
  "rtModuleDirSeparator = '':''"

text \<open>
  The constructor works on a \<^verbatim>\<open>std::string\<close>. \<open>std_find s t\<close> is \<^verbatim>\<open>s.find(t)\<close>: the
  first position at which \<open>t\<close> occurs in \<open>s\<close>, and \<open>None\<close> for \<^verbatim>\<open>npos\<close>.
  \<open>std_substr s pos n\<close> is \<^verbatim>\<open>s.substr(pos, n)\<close> and \<open>std_substr_from s pos\<close> is
  \<^verbatim>\<open>s.substr(pos)\<close>. The library raises \<^verbatim>\<open>out_of_range\<close> when \<open>pos\<close> exceeds the
  size; the constructor passes \<open>0\<close> and the end of a match that was found, which never
  do (lemma \<open>std_find_bound\<close>).
\<close>

fun std_find :: "string \<Rightarrow> string \<Rightarrow> nat option" where
  "std_find [] t = (if t = [] then Some 0 else None)"
| "std_find (c # cs) t =
     (if take (length t) (c # cs) = t then Some 0 else map_option Suc (std_find cs t))"

definition std_substr :: "string \<Rightarrow> nat \<Rightarrow> nat \<Rightarrow> string" where
  "std_substr s pos n = take n (drop pos s)"

definition std_substr_from :: "string \<Rightarrow> nat \<Rightarrow> string" where
  "std_substr_from s pos = drop pos s"

lemma std_find_bound: "std_find s t = Some i \<Longrightarrow> i + length t \<le> length s"
proof (induction s arbitrary: i)
  case Nil
  then show ?case by (simp split: if_splits)
next
  case (Cons c cs)
  show ?case
  proof (cases "take (length t) (c # cs) = t")
    case True
    then have "length t = min (length t) (length (c # cs))"
      using length_take [of "length t" "c # cs"] by simp
    then have "length t \<le> length (c # cs)"
      by linarith
    with True Cons.prems show ?thesis by simp
  next
    case False
    with Cons.prems obtain j where "std_find cs t = Some j" and "i = Suc j"
      by auto
    with Cons.IH [of j] show ?thesis by simp
  qed
qed

text \<open>
  The loop of the constructor, with the rest of the value and the list built so far as
  arguments.
\<close>

function moduleDirs_loop :: "string \<Rightarrow> string list \<Rightarrow> string list" where
  "moduleDirs_loop env mModuleDirs =
     (if length env \<noteq> 0 then
        (case std_find env rtModuleDirSeparator of
           Some index \<Rightarrow>
             moduleDirs_loop
               (std_substr_from env (index + length rtModuleDirSeparator))
               (if length (std_substr_from env (index + length rtModuleDirSeparator)) = 0
                then (mModuleDirs @ [std_substr env 0 index])
                       @ [std_substr_from env (index + length rtModuleDirSeparator)]
                else mModuleDirs @ [std_substr env 0 index])
         | None \<Rightarrow> moduleDirs_loop [] (mModuleDirs @ [env]))
      else mModuleDirs)"
  by pat_completeness auto
termination
  by (relation "measure (\<lambda>(env, mModuleDirs). length env)")
     (auto simp: std_substr_from_def rtModuleDirSeparator_def)

declare moduleDirs_loop.simps [simp del]

definition rtModuleDirs_ctor :: "environ \<Rightarrow> string option \<Rightarrow> string \<Rightarrow> string list" where
  "rtModuleDirs_ctor env getcwd_result env_name =
     (let cwd = snd (rtGetCurrentDirectory getcwd_result []);
          rt_env = rtGetEnvAsString env env_name (rtString_cString cwd)
      in moduleDirs_loop rt_env [])"

text \<open>
  The fields of a value between its separators: a value with \<open>n\<close> separators has
  \<open>n + 1\<close> fields, some of which may be empty.
\<close>

fun split_on :: "char \<Rightarrow> string \<Rightarrow> string list" where
  "split_on sep [] = [[]]"
| "split_on sep (c # cs) =
     (if c = sep then [] # split_on sep cs
      else (case split_on sep cs of [] \<Rightarrow> [[c]] | f # fs \<Rightarrow> (c # f) # fs))"

subsection \<open>The singleton and the process state\<close>

text \<open>
  The state of the process that these functions read and write: the environment block,
  the outcome that \<^verbatim>\<open>getcwd\<close> has at present, the \<^verbatim>\<open>rtModuleDirs\<close> objects that are
  allocated (address and \<^verbatim>\<open>mModuleDirs\<close> member), the next address that \<^verbatim>\<open>new\<close> hands
  out, and the static pointer \<^verbatim>\<open>mModuleInstance\<close> (\<open>None\<close> is \<^verbatim>\<open>NULL\<close>).
\<close>

record process =
  env_block :: environ
  getcwd_result :: "string option"
  heap :: "(nat \<times> string list) list"
  next_addr :: nat
  mModuleInstance :: "nat option"

definition initial :: "environ \<Rightarrow> string option \<Rightarrow> process" where
  "initial env g =
     \<lparr>env_block = env, getcwd_result = g, heap = [], next_addr = 0, mModuleInstance = None\<rparr>"

definition rtModuleDirs_new :: "string \<Rightarrow> process \<Rightarrow> nat \<times> process" where
  "rtModuleDirs_new env_name s =
     (next_addr s,
      s\<lparr>heap := heap s @ [(next_addr s, rtModuleDirs_ctor (env_block s) (getcwd_result s) env_name)],
        next_addr := Suc (next_addr s)\<rparr>)"

definition rtModuleDirs_delete :: "nat \<Rightarrow> process \<Rightarrow> process" where
  "rtModuleDirs_delete p s = s\<lparr>heap := filter (\<lambda>obj. fst obj \<noteq> p) (heap s)\<rparr>"

definition rtModuleDirs_instance :: "string \<Rightarrow> process \<Rightarrow> nat \<times> process" where
  "rtModuleDirs_instance env_name s =
     (case mModuleInstance s of
        None \<Rightarrow> (case rtModuleDirs_new env_name s of
                   (p, s') \<Rightarrow> (p, s'\<lparr>mModuleInstance := Some p\<rparr>))
      | Some p \<Rightarrow> (p, s))"

definition rtModuleDirs_destroy :: "process \<Rightarrow> process" where
  "rtModuleDirs_destroy s =
     (case mModuleInstance s of
        Some p \<Rightarrow> (rtModuleDirs_delete p s)\<lparr>mModuleInstance := None\<rparr>
      | None \<Rightarrow> s\<lparr>mModuleInstance := None\<rparr>)"

text \<open>
  \<^verbatim>\<open>iterator()\<close> returns the pair of \<^verbatim>\<open>begin()\<close> and \<^verbatim>\<open>end()\<close> of the member; the range
  they delimit is the list itself. \<open>None\<close> stands for a call through a pointer to an
  object that is no longer allocated.
\<close>

definition rtModuleDirs_iterator :: "nat \<Rightarrow> process \<Rightarrow> string list option" where
  "rtModuleDirs_iterator p s = map_of (heap s) p"

definition rtConcatenatePath :: "string \<Rightarrow> string \<Rightarrow> string" where
  "rtConcatenatePath dir file =
     (let path = dir;
          path = snd (rtEnsureTrailingPathSeparator path)
      in rtString_append path file)"

text \<open>
  Dereferencing \<^verbatim>\<open>begin()\<close> of an empty vector is undefined behaviour; the model makes it
  a fault. The default argument of \<^verbatim>\<open>instance\<close> is given in the header, which is not
  among the sources, so it is a parameter.
\<close>

datatype fault = Deref_past_the_end | Dangling_pointer

definition rtGetRootModulePath ::
  "string \<Rightarrow> string option \<Rightarrow> process \<Rightarrow> (fault + string) \<times> process" where
  "rtGetRootModulePath default_env_name file s =
     (case rtModuleDirs_instance default_env_name s of
        (dirs, s') \<Rightarrow>
          (case rtModuleDirs_iterator dirs s' of
             None \<Rightarrow> (Inl Dangling_pointer, s')
           | Some [] \<Rightarrow> (Inl Deref_past_the_end, s')
           | Some (rootDir # _) \<Rightarrow>
               (Inr (rtConcatenatePath rootDir (case file of None \<Rightarrow> [] | Some f \<Rightarrow> f)), s')))"

text \<open>
  \<^verbatim>\<open>setenv\<close> and \<^verbatim>\<open>unsetenv\<close> refuse an empty name and a name that contains \<open>=\<close>
  (\<^verbatim>\<open>EINVAL\<close>), and return \<open>0\<close> otherwise.
\<close>

definition setenv :: "string \<Rightarrow> string \<Rightarrow> environ \<Rightarrow> int \<times> environ" where
  "setenv name v env =
     (if name = [] \<or> CHR ''='' \<in> set name then (- 1, env) else (0, env(name \<mapsto> v)))"

definition unsetenv :: "string \<Rightarrow> environ \<Rightarrow> int \<times> environ" where
  "unsetenv name env =
     (if name = [] \<or> CHR ''='' \<in> set name then (- 1, env) else (0, env(name := None)))"

definition rtPathUtilPutEnv :: "string \<Rightarrow> string option \<Rightarrow> process \<Rightarrow> rtError \<times> process" where
  "rtPathUtilPutEnv name v s =
     (case v of
        Some x \<Rightarrow> (case setenv name x (env_block s) of
                    (r, env') \<Rightarrow> (if r = 0 then RT_OK else RT_ERROR, s\<lparr>env_block := env'\<rparr>))
      | None \<Rightarrow> (case unsetenv name (env_block s) of
                   (r, env') \<Rightarrow> (if r = 0 then RT_OK else RT_ERROR, s\<lparr>env_block := env'\<rparr>)))"

text \<open>
  The calls a program can make into this file that read or write the process state, and
  the state after a sequence of them. \<open>Iterator\<close> is \<^verbatim>\<open>instance()->iterator()\<close> on an
  instance that exists. A change of the working directory happens outside this file and
  is an event of its own.
\<close>

datatype operation =
    Instance string
  | Destroy
  | Iterator
  | GetRootModulePath "string option"
  | PutEnv string "string option"
  | ChangeDirectory "string option"

fun exec :: "string \<Rightarrow> operation \<Rightarrow> process \<Rightarrow> process" where
  "exec dflt (Instance env_name) s = snd (rtModuleDirs_instance env_name s)"
| "exec dflt Destroy s = rtModuleDirs_destroy s"
| "exec dflt Iterator s = s"
| "exec dflt (GetRootModulePath file) s = snd (rtGetRootModulePath dflt file s)"
| "exec dflt (PutEnv name v) s = snd (rtPathUtilPutEnv name v s)"
| "exec dflt (ChangeDirectory g) s = s\<lparr>getcwd_result := g\<rparr>"

definition run :: "string \<Rightarrow> operation list \<Rightarrow> process \<Rightarrow> process" where
  "run dflt ops s = foldl (\<lambda>s' op. exec dflt op s') s ops"

text \<open>
  The allocated objects are exactly the one that the static pointer refers to, if any.
\<close>

definition singleton_inv :: "process \<Rightarrow> bool" where
  "singleton_inv s =
     (map fst (heap s) = (case mModuleInstance s of None \<Rightarrow> [] | Some p \<Rightarrow> [p]))"

subsection \<open>The file system\<close>

text \<open>
  \<^verbatim>\<open>stat\<close> and \<^verbatim>\<open>mkdir\<close> belong to the operating system. The model keeps a table of
  the entries that exist, each under its absolute name (the list of its components, the
  root being the empty list, which is always a directory), in the order of their
  creation, and the working directory. A path is resolved component by component from
  the root or from the working directory: every component but the last must lead to a
  directory, \<open>.\<close> stays and \<open>..\<close> goes up. Ownership, permission bits, links and length
  limits are not modelled.
\<close>

datatype entry = Directory | RegularFile

record filesystem =
  entries :: "(string list \<times> entry) list"
  cwd :: "string list"

definition components :: "string \<Rightarrow> string list" where
  "components p = filter (\<lambda>c. c \<noteq> []) (split_on (CHR ''/'') p)"

definition lookup :: "filesystem \<Rightarrow> string list \<Rightarrow> entry option" where
  "lookup fs cs = (if cs = [] then Some Directory else map_of (entries fs) cs)"

definition is_dir :: "filesystem \<Rightarrow> string list \<Rightarrow> bool" where
  "is_dir fs cs = (lookup fs cs = Some Directory)"

fun walk :: "filesystem \<Rightarrow> string list \<Rightarrow> string list \<Rightarrow> string list option" where
  "walk fs cur [] = Some cur"
| "walk fs cur (c # cs) =
     (if \<not> is_dir fs cur then None
      else if c = ''.'' then walk fs cur cs
      else if c = ''..'' then walk fs (butlast cur) cs
      else walk fs (cur @ [c]) cs)"

definition start_dir :: "filesystem \<Rightarrow> string \<Rightarrow> string list" where
  "start_dir fs p = (if cstr_first p = CHR ''/'' then [] else cwd fs)"

text \<open>
  \<^verbatim>\<open>stat\<close> returns \<open>0\<close> for a path that resolves to an entry and \<open>-1\<close> otherwise; the
  empty path does not resolve, and a path with a trailing separator resolves to
  directories only.
\<close>

definition stat :: "filesystem \<Rightarrow> string \<Rightarrow> int" where
  "stat fs f =
     (if f = [] then - 1
      else (case walk fs (start_dir fs f) (components f) of
              None \<Rightarrow> - 1
            | Some t \<Rightarrow>
                (case lookup fs t of
                   None \<Rightarrow> - 1
                 | Some Directory \<Rightarrow> 0
                 | Some RegularFile \<Rightarrow> (if last f = CHR ''/'' then - 1 else 0))))"

text \<open>
  \<^verbatim>\<open>mkdir\<close> adds a directory and returns \<open>0\<close> when the path names a new entry in an
  existing directory; otherwise it returns \<open>-1\<close> and changes nothing.
\<close>

definition mkdir :: "filesystem \<Rightarrow> string \<Rightarrow> int \<times> filesystem" where
  "mkdir fs p =
     (if p = [] then (- 1, fs)
      else if components p = [] then (- 1, fs)
      else (case walk fs (start_dir fs p) (butlast (components p)) of
              None \<Rightarrow> (- 1, fs)
            | Some d \<Rightarrow>
                if \<not> is_dir fs d then (- 1, fs)
                else if last (components p) = ''.'' then (- 1, fs)
                else if last (components p) = ''..'' then (- 1, fs)
                else if lookup fs (d @ [last (components p)]) \<noteq> None then (- 1, fs)
                else (0, fs\<lparr>entries := entries fs @ [(d @ [last (components p)], Directory)]\<rparr>)))"

subsection \<open>rtFileExists and rtMakeDirectory\<close>

definition rtFileExists :: "filesystem \<Rightarrow> string \<Rightarrow> bool" where
  "rtFileExists fs f = (stat fs f = 0)"

text \<open>
  The body of the \<^verbatim>\<open>do ... while (i != -1)\<close> loop, with \<^verbatim>\<open>i\<close>, \<^verbatim>\<open>retVal\<close> and the
  file system as arguments; the value is \<^verbatim>\<open>retVal\<close> and the file system at the exit,
  be it by \<^verbatim>\<open>break\<close> or by the loop condition. The call of \<^verbatim>\<open>rtLogError\<close> writes to
  the log only.
\<close>

lemma rtString_find_after:
  "rtString_find s (nat (i + 1)) ch \<noteq> - 1 \<Longrightarrow> i < rtString_find s (nat (i + 1)) ch"
  using rtString_find_range [of s "nat (i + 1)" ch] by (auto split: if_splits)

lemma rtString_find_inside:
  "rtString_find s (nat (i + 1)) ch \<noteq> - 1 \<Longrightarrow> i < int (length s)"
  using rtString_find_range [of s "nat (i + 1)" ch] by (auto split: if_splits)

function mkdir_loop :: "string \<Rightarrow> int \<Rightarrow> int \<Rightarrow> filesystem \<Rightarrow> int \<times> filesystem" where
  "mkdir_loop dir i retVal fs =
     (let pos = rtString_find dir (nat (i + 1)) (CHR ''/'');
          sub = (if pos = - 1 then dir else rtString_substring dir 0 (nat (pos + 1)))
      in if \<not> rtFileExists fs sub
         then (case mkdir fs sub of
                 (r, fs') \<Rightarrow>
                   if r \<noteq> 0 then (r, fs')
                   else if pos \<noteq> - 1 then mkdir_loop dir pos r fs' else (r, fs'))
         else if pos \<noteq> - 1 then mkdir_loop dir pos retVal fs else (retVal, fs))"
  by pat_completeness auto
termination
  by (relation "measure (\<lambda>(dir, i, retVal, fs). nat (int (length dir) - i))")
     (auto intro: rtString_find_after rtString_find_inside)

declare mkdir_loop.simps [simp del]

definition rtMakeDirectory :: "string \<Rightarrow> filesystem \<Rightarrow> bool \<times> filesystem" where
  "rtMakeDirectory dir fs =
     (case mkdir_loop dir 0 0 fs of (retVal, fs') \<Rightarrow> (retVal = 0, fs'))"

text \<open>
  The directory creation as the specification words it. \<open>segments p\<close> lists the
  prefixes of \<open>p\<close> that end in a separator, from left to right, and then \<open>p\<close> itself.
  \<open>create_all\<close> goes through such a list: a path that exists is skipped, a missing one
  is created, and the first creation that fails ends the run with the answer \<open>False\<close>.
\<close>

definition segments :: "string \<Rightarrow> string list" where
  "segments p =
     map (\<lambda>i. take (Suc i) p) (filter (\<lambda>i. p ! i = CHR ''/'') [0..<length p]) @ [p]"

fun create_all :: "string list \<Rightarrow> filesystem \<Rightarrow> bool \<times> filesystem" where
  "create_all [] fs = (True, fs)"
| "create_all (q # qs) fs =
     (if rtFileExists fs q then create_all qs fs
      else (case mkdir fs q of
              (r, fs') \<Rightarrow> if r = 0 then create_all qs fs' else (False, fs')))"

text \<open>A file system \<open>fs'\<close> that has every entry of \<open>fs\<close>, and the same working directory.\<close>

definition fs_le :: "filesystem \<Rightarrow> filesystem \<Rightarrow> bool" where
  "fs_le fs fs' =
     (cwd fs' = cwd fs \<and> (\<forall>cs e. lookup fs cs = Some e \<longrightarrow> lookup fs' cs = Some e))"

text \<open>The segments whose separator stands at position \<open>k\<close> or later, and the path.\<close>

definition segments_from :: "string \<Rightarrow> nat \<Rightarrow> string list" where
  "segments_from p k =
     map (\<lambda>i. take (Suc i) p) (filter (\<lambda>i. p ! i = CHR ''/'') [k..<length p]) @ [p]"

section \<open>Properties\<close>

subsection \<open>Resolution of a relative path\<close>

declare last_slash_loop.simps [simp del]

lemma upto_last_absent: "ch \<notin> set xs \<Longrightarrow> upto_last ch xs = []"
  by (cases xs) auto

lemma upto_last_append: "upto_last ch (xs @ ch # ys) = xs @ ch # upto_last ch ys"
  by (induction xs) auto

lemma upto_last_final: "ch \<notin> set ys \<Longrightarrow> upto_last ch (xs @ ch # ys) = xs @ [ch]"
  by (simp add: upto_last_append upto_last_absent)

lemma split_at_first:
  assumes "ch \<in> set xs"
  shows "xs = takeWhile (\<lambda>c. c \<noteq> ch) xs
           @ ch # drop (Suc (length (takeWhile (\<lambda>c. c \<noteq> ch) xs))) xs"
  using assms by (induction xs) auto

lemma truncate_by_find:
  "takeWhile (\<lambda>c. c \<noteq> ch) s =
   (if rtString_find s 0 ch \<noteq> - 1
    then rtString_substring s 0 (nat (rtString_find s 0 ch)) else s)"
proof (cases "ch \<in> set s")
  case True
  then show ?thesis
    by (simp add: rtString_find_def rtString_substring_def takeWhile_eq_take [symmetric])
next
  case False
  then show ?thesis
    by (auto simp: rtString_find_def)
qed

text \<open>
  The loop invariant: when \<open>pos\<close> is the first slash behind \<open>lastPos\<close>, the loop ends
  with the position of the last slash, so that the characters up to it are those up to
  \<open>lastPos\<close> followed by what \<open>upto_last\<close> keeps of the rest.
\<close>

lemma last_slash_loop_prefix:
  "pos = rtString_find s (nat (lastPos + 1)) (CHR ''/'') \<Longrightarrow>
   take (nat (last_slash_loop s lastPos pos + 1)) s
   = take (nat (lastPos + 1)) s @ upto_last (CHR ''/'') (drop (nat (lastPos + 1)) s)"
proof (induction s lastPos pos rule: last_slash_loop.induct)
  case (1 s lastPos pos)
  define k where "k = nat (lastPos + 1)"
  define tw where "tw = takeWhile (\<lambda>c. c \<noteq> CHR ''/'') (drop k s)"
  show ?case
  proof (cases "CHR ''/'' \<in> set (drop k s)")
    case False
    with "1.prems" have "pos = - 1" by (simp add: rtString_find_def k_def)
    with False show ?thesis
      by (subst last_slash_loop.simps) (simp add: upto_last_absent k_def)
  next
    case True
    with "1.prems" have pos: "pos = int (k + length tw)"
      by (simp add: rtString_find_def k_def tw_def)
    then have ne: "pos \<noteq> - 1" by simp
    have np: "nat (pos + 1) = Suc (k + length tw)" unfolding pos by simp
    have dk: "drop k s = tw @ CHR ''/'' # drop (Suc (k + length tw)) s"
      using split_at_first [OF True] by (simp add: add.commute tw_def)
    have tk: "take (Suc (k + length tw)) s = take k s @ tw @ [CHR ''/'']"
    proof -
      have "take (Suc (k + length tw)) s = take k s @ take (Suc (length tw)) (drop k s)"
        using take_add [of k "Suc (length tw)" s] by simp
      also have "take (Suc (length tw)) (drop k s) = tw @ [CHR ''/'']"
        by (subst dk) simp
      finally show ?thesis .
    qed
    have "take (nat (last_slash_loop s lastPos pos + 1)) s
        = take (nat (last_slash_loop s pos (rtString_find s (nat (pos + 1)) (CHR ''/'')) + 1)) s"
      using ne by (subst last_slash_loop.simps) simp
    also have "\<dots> = take (nat (pos + 1)) s @ upto_last (CHR ''/'') (drop (nat (pos + 1)) s)"
      using "1.IH" [OF ne refl] .
    also have "\<dots> = (take k s @ tw @ [CHR ''/''])
          @ upto_last (CHR ''/'') (drop (Suc (k + length tw)) s)"
      by (simp only: np tk)
    also have "\<dots> = take k s @ upto_last (CHR ''/'') (drop k s)"
    proof -
      have "upto_last (CHR ''/'') (drop k s)
          = tw @ CHR ''/'' # upto_last (CHR ''/'') (drop (Suc (k + length tw)) s)"
        by (subst dk) (rule upto_last_append)
      then show ?thesis by simp
    qed
    finally show ?thesis by (simp only: k_def)
  qed
qed

lemma rtResolveRelativePath_eq:
  "rtResolveRelativePath r b =
   upto_last (CHR ''/'')
     (takeWhile (\<lambda>c. c \<noteq> CHR ''?'') (takeWhile (\<lambda>c. c \<noteq> CHR ''#'') b)) @ r"
proof -
  define s where "s = takeWhile (\<lambda>c. c \<noteq> CHR ''?'') (takeWhile (\<lambda>c. c \<noteq> CHR ''#'') b)"
  define L where "L = last_slash_loop s (- 1) (rtString_find s 0 (CHR ''/''))"
  have tk: "take (nat (L + 1)) s = upto_last (CHR ''/'') s"
    using last_slash_loop_prefix [of "rtString_find s 0 (CHR ''/'')" s "- 1"]
    by (simp add: L_def)
  have path: "(if L \<noteq> - 1 then rtString_substring s 0 (nat (L + 1)) else [])
      = upto_last (CHR ''/'') s"
    using tk by (auto simp: rtString_substring_def)
  show ?thesis
    unfolding rtResolveRelativePath_def Let_def truncate_by_find [symmetric]
      s_def [symmetric] L_def [symmetric] path rtString_append_def
    by (rule refl)
qed

text \<open>
  C1. For every relative path \<open>r\<close> and base path \<open>b\<close>, \<open>rtResolveRelativePath r b\<close> is
  the base cut at its first \<open>#\<close>, then at its first \<open>?\<close>, then kept up to and including
  its last \<open>/\<close> (nothing is kept when there is no \<open>/\<close>), followed by \<open>r\<close>. Resolving
  \<open>c.js\<close> against \<open>http://x/a/b?q=1#frag\<close> gives \<open>http://x/a/c.js\<close>, and against
  \<open>nofile\<close> gives \<open>c.js\<close>.
\<close>

theorem rtResolveRelativePath_meets_spec:
  "rtResolveRelativePath r b = resolveRelative_spec r b
   \<and> rtResolveRelativePath ''c.js'' ''http://x/a/b?q=1#frag'' = ''http://x/a/c.js''
   \<and> rtResolveRelativePath ''c.js'' ''nofile'' = ''c.js''"
  by (simp add: rtResolveRelativePath_eq resolveRelative_spec_def truncate_at_def)

subsection \<open>Trailing separator, absolute paths and the environment\<close>

lemma rtString_endsWith_slash:
  "rtString_endsWith p ''/'' = (p \<noteq> [] \<and> last p = CHR ''/'')"
proof (cases p rule: rev_cases)
  case Nil
  then show ?thesis by (simp add: rtString_endsWith_def)
next
  case (snoc ys y)
  then show ?thesis by (auto simp: rtString_endsWith_def)
qed

text \<open>
  C8. Ensuring the trailing separator twice gives the same string as ensuring it once,
  and the separator \<open>/\<close> is appended exactly when the path does not already end with it.
\<close>

theorem rtEnsureTrailingPathSeparator_idempotent:
  "snd (rtEnsureTrailingPathSeparator (snd (rtEnsureTrailingPathSeparator p)))
     = snd (rtEnsureTrailingPathSeparator p)
   \<and> snd (rtEnsureTrailingPathSeparator p)
     = (if p \<noteq> [] \<and> last p = CHR ''/'' then p else p @ ''/'')
   \<and> fst (rtEnsureTrailingPathSeparator p) = RT_OK"
  by (simp add: rtEnsureTrailingPathSeparator_def rtString_endsWith_slash rtString_append_def)

text \<open>
  C6. On POSIX a path is absolute exactly when its first character is \<open>/\<close>; the empty
  string and the null pointer are not absolute. \<open>/a/b\<close> is absolute and \<open>a/b\<close> is not.
\<close>

theorem rtIsPathAbsolute_first_char:
  "rtIsPathAbsolute_cstr (Some p) = (p \<noteq> [] \<and> hd p = CHR ''/'')
   \<and> rtIsPathAbsolute p = (p \<noteq> [] \<and> hd p = CHR ''/'')
   \<and> rtIsPathAbsolute_cstr None = False
   \<and> rtIsPathAbsolute_cstr (Some []) = False
   \<and> rtIsPathAbsolute [] = False
   \<and> rtIsPathAbsolute ''/a/b'' = True
   \<and> rtIsPathAbsolute ''a/b'' = False"
  by (cases p)
     (simp_all add: rtIsPathAbsolute_def rtIsPathAbsolute_cstr_def cstr_first_def
        rtString_isEmpty_def rtString_cString_def)

text \<open>
  C7. \<open>rtGetEnv\<close> yields the empty string for a variable that is not set, exactly as for
  one set to the empty string, and always reports \<open>RT_OK\<close>. \<open>rtGetEnvAsString\<close> yields the
  default when that value is empty and the value itself otherwise; for a variable that is
  not set and the default \<open>fallback\<close> it yields \<open>fallback\<close>.
\<close>

theorem rtGetEnv_unset_is_empty:
  "rtGetEnv (env(n := None)) n v = (RT_OK, [])
   \<and> rtGetEnv (env(n := None)) n v = rtGetEnv (env(n \<mapsto> [])) n v
   \<and> rtGetEnv (env(n \<mapsto> x)) n v = (RT_OK, x)
   \<and> rtGetEnvAsString env n (Some d)
       = (if snd (rtGetEnv env n []) = [] then d else snd (rtGetEnv env n []))
   \<and> rtGetEnvAsString (env(''UNSET_VAR_XYZ'' := None)) ''UNSET_VAR_XYZ'' (Some ''fallback'')
       = ''fallback''"
  by (simp add: rtGetEnv_def getenv_def rtString_of_cstr_def rtGetEnvAsString_def
      rtString_isEmpty_def)

text \<open>
  C4, as the code has it. \<open>rtGetHomeDirectory\<close> reads \<open>HOME\<close>, ensures the trailing
  separator and always reports \<open>RT_OK\<close>: a variable that is not set or is empty gives the
  path \<open>/\<close>, not a failure.
\<close>

theorem rtGetHomeDirectory_always_ok:
  "rtGetHomeDirectory env d
     = (RT_OK, snd (rtEnsureTrailingPathSeparator (rtString_of_cstr (env ''HOME''))))
   \<and> rtGetHomeDirectory (env(''HOME'' := None)) d = (RT_OK, ''/'')
   \<and> rtGetHomeDirectory (env(''HOME'' \<mapsto> [])) d = (RT_OK, ''/'')"
  by (simp add: rtGetHomeDirectory_def rtGetEnv_def getenv_def rtString_of_cstr_def
      rtEnsureTrailingPathSeparator_def rtString_endsWith_def rtString_append_def)

text \<open>
  With an empty environment, where \<open>HOME\<close> is not set, the call reports \<open>RT_OK\<close> and
  the path \<open>/\<close>; it does not report a failure.
\<close>

theorem rtGetHomeDirectory_unset_not_failure:
  "rtGetHomeDirectory Map.empty [] = (RT_OK, ''/'')
   \<and> fst (rtGetHomeDirectory Map.empty []) \<noteq> RT_FAIL"
  by (simp add: rtGetHomeDirectory_def rtGetEnv_def getenv_def rtString_of_cstr_def
      rtEnsureTrailingPathSeparator_def rtString_endsWith_def rtString_append_def)

text \<open>
  C5, as the code has it. \<open>rtGetCurrentDirectory\<close> always reports \<open>RT_OK\<close>. When the
  operating system call succeeds the path is the directory it reported; when it fails the
  caller's string is left as it was, so the result is empty only for a caller that passed
  an empty string.
\<close>

theorem rtGetCurrentDirectory_result:
  "rtGetCurrentDirectory (Some p) d = (RT_OK, p)
   \<and> rtGetCurrentDirectory None d = (RT_OK, d)
   \<and> rtGetCurrentDirectory None [] = (RT_OK, [])"
  by (simp add: rtGetCurrentDirectory_def)

text \<open>
  A failed operating system call does not show as an empty result for a caller whose
  string held text before the call: the text is still there, and the code is \<open>RT_OK\<close>.
\<close>

theorem rtGetCurrentDirectory_failure_keeps_text:
  "rtGetCurrentDirectory None ''stale'' = (RT_OK, ''stale'')
   \<and> snd (rtGetCurrentDirectory None ''stale'') \<noteq> []"
  by (simp add: rtGetCurrentDirectory_def)

subsection \<open>Parsing the module directory list\<close>

lemma std_find_char:
  "std_find s [c] = (if c \<in> set s then Some (length (takeWhile (\<lambda>x. x \<noteq> c) s)) else None)"
  by (induction s) auto

lemma split_on_absent: "sep \<notin> set s \<Longrightarrow> split_on sep s = [s]"
  by (induction s) auto

lemma split_on_first:
  "sep \<notin> set xs \<Longrightarrow> split_on sep (xs @ sep # ys) = xs # split_on sep ys"
  by (induction xs) auto

lemma split_on_not_Nil [simp]: "split_on sep s \<noteq> []"
  by (induction s) (auto split: list.splits)

lemma split_on_snoc: "split_on sep (v @ [sep]) = split_on sep v @ [[]]"
  by (induction v) (auto split: list.splits)

text \<open>
  The loop appends the fields of the value to the list built so far, except that an
  empty value has no field at all.
\<close>

lemma moduleDirs_loop_split:
  "moduleDirs_loop env acc = acc @ (if env = [] then [] else split_on (CHR '':'') env)"
proof (induction env acc rule: moduleDirs_loop.induct)
  case (1 env acc)
  show ?case
  proof (cases "env = []")
    case True
    then show ?thesis by (subst moduleDirs_loop.simps) simp
  next
    case ne: False
    show ?thesis
    proof (cases "CHR '':'' \<in> set env")
      case False
      then have f: "std_find env rtModuleDirSeparator = None"
        by (simp add: rtModuleDirSeparator_def std_find_char)
      have "moduleDirs_loop [] (acc @ [env]) = acc @ [env]"
        by (subst moduleDirs_loop.simps) simp
      with ne f False show ?thesis
        by (subst moduleDirs_loop.simps) (simp add: split_on_absent)
    next
      case True
      define tw where "tw = takeWhile (\<lambda>x. x \<noteq> CHR '':'') env"
      define rest where "rest = drop (Suc (length tw)) env"
      have f: "std_find env rtModuleDirSeparator = Some (length tw)"
        using True by (simp add: rtModuleDirSeparator_def std_find_char tw_def)
      have env: "env = tw @ CHR '':'' # rest"
        using split_at_first [OF True] by (simp add: tw_def rest_def)
      have notin: "CHR '':'' \<notin> set tw"
        unfolding tw_def by (metis (mono_tags, lifting) set_takeWhileD)
      have sub: "std_substr env 0 (length tw) = tw"
        by (subst env) (simp add: std_substr_def)
      have fr: "std_substr_from env (length tw + length rtModuleDirSeparator) = rest"
        by (simp add: std_substr_from_def rtModuleDirSeparator_def rest_def)
      have sp: "split_on (CHR '':'') env = tw # split_on (CHR '':'') rest"
        by (subst env) (simp add: split_on_first notin)
      have ih: "moduleDirs_loop rest
            (if length rest = 0 then (acc @ [tw]) @ [rest] else acc @ [tw])
        = (if length rest = 0 then (acc @ [tw]) @ [rest] else acc @ [tw])
          @ (if rest = [] then [] else split_on (CHR '':'') rest)"
        using "1.IH"(2) [OF _ f] ne by (simp only: sub fr) simp
      have "moduleDirs_loop env acc
          = moduleDirs_loop rest
              (if length rest = 0 then (acc @ [tw]) @ [rest] else acc @ [tw])"
        using ne by (subst moduleDirs_loop.simps) (simp add: f sub fr)
      also note ih
      finally show ?thesis using ne sp by auto
    qed
  qed
qed

lemma rtModuleDirs_ctor_eq:
  "rtModuleDirs_ctor env g n =
     (if rtGetEnvAsString env n (Some (snd (rtGetCurrentDirectory g []))) = [] then []
      else split_on (CHR '':'')
             (rtGetEnvAsString env n (Some (snd (rtGetCurrentDirectory g [])))))"
  by (simp add: rtModuleDirs_ctor_def Let_def moduleDirs_loop_split rtString_cString_def)

lemma rtGetEnvAsString_set:
  "rtGetEnvAsString (env(n \<mapsto> v)) n d = (if v = [] then rtString_of_cstr d else v)"
  by (simp add: rtGetEnvAsString_def rtGetEnv_def getenv_def rtString_of_cstr_def
      rtString_isEmpty_def)

lemma rtGetEnvAsString_unset:
  "rtGetEnvAsString (env(n := None)) n d = rtString_of_cstr d"
  by (simp add: rtGetEnvAsString_def rtGetEnv_def getenv_def rtString_of_cstr_def
      rtString_isEmpty_def)

text \<open>
  C3. On POSIX the constructor of the module directory list splits the value of the
  environment variable on \<open>:\<close> into its fields, in order: \<open>/x:/y:/z\<close> gives \<open>/x\<close>,
  \<open>/y\<close>, \<open>/z\<close>. A value that ends in the separator gives one more entry, the empty
  string, at the end. When the variable is not set, the current working directory is
  split in place of the value.
\<close>

theorem rtModuleDirs_ctor_splits_value:
  "rtModuleDirs_ctor env g n =
     (if rtGetEnvAsString env n (Some (snd (rtGetCurrentDirectory g []))) = [] then []
      else split_on (CHR '':'')
             (rtGetEnvAsString env n (Some (snd (rtGetCurrentDirectory g [])))))
   \<and> rtModuleDirs_ctor (env(n \<mapsto> ''/x:/y:/z'')) g n = [''/x'', ''/y'', ''/z'']
   \<and> rtModuleDirs_ctor (env(n \<mapsto> v @ '':'')) g n = split_on (CHR '':'') v @ [[]]
   \<and> (if v = [] then rtModuleDirs_ctor (env(n \<mapsto> v @ '':'')) g n = [[], []]
       else rtModuleDirs_ctor (env(n \<mapsto> v @ '':'')) g n
            = rtModuleDirs_ctor (env(n \<mapsto> v)) g n @ [[]])
   \<and> rtModuleDirs_ctor (env(n := None)) (Some d) n
       = (if d = [] then [] else split_on (CHR '':'') d)
   \<and> (if d = [] then rtModuleDirs_ctor (env(n := None)) (Some d) n = []
       else rtModuleDirs_ctor (env(n := None)) (Some d) n
            = rtModuleDirs_ctor (env(n \<mapsto> d)) g n)
   \<and> rtModuleDirs_ctor (env(n := None)) None n = []"
proof -
  have c1: "rtModuleDirs_ctor env g n =
     (if rtGetEnvAsString env n (Some (snd (rtGetCurrentDirectory g []))) = [] then []
      else split_on (CHR '':'')
             (rtGetEnvAsString env n (Some (snd (rtGetCurrentDirectory g [])))))"
    by (rule rtModuleDirs_ctor_eq)
  have c2: "rtModuleDirs_ctor (env(n \<mapsto> ''/x:/y:/z'')) g n = [''/x'', ''/y'', ''/z'']"
    by (simp add: rtModuleDirs_ctor_eq rtGetEnvAsString_set)
  have c3: "rtModuleDirs_ctor (env(n \<mapsto> v @ '':'')) g n = split_on (CHR '':'') v @ [[]]"
    using split_on_snoc [of "CHR '':''" v]
    by (simp add: rtModuleDirs_ctor_eq rtGetEnvAsString_set)
  have c4: "if v = [] then rtModuleDirs_ctor (env(n \<mapsto> v @ '':'')) g n = [[], []]
       else rtModuleDirs_ctor (env(n \<mapsto> v @ '':'')) g n
            = rtModuleDirs_ctor (env(n \<mapsto> v)) g n @ [[]]"
  proof (cases "v = []")
    case True
    then show ?thesis by (simp add: rtModuleDirs_ctor_eq rtGetEnvAsString_set)
  next
    case False
    then have "rtModuleDirs_ctor (env(n \<mapsto> v)) g n = split_on (CHR '':'') v"
      by (simp add: rtModuleDirs_ctor_eq rtGetEnvAsString_set)
    with False c3 show ?thesis by simp
  qed
  have c5: "rtModuleDirs_ctor (env(n := None)) (Some d) n
       = (if d = [] then [] else split_on (CHR '':'') d)"
    by (simp add: rtModuleDirs_ctor_eq rtGetEnvAsString_unset rtString_of_cstr_def
        rtGetCurrentDirectory_def)
  have c6: "if d = [] then rtModuleDirs_ctor (env(n := None)) (Some d) n = []
       else rtModuleDirs_ctor (env(n := None)) (Some d) n
            = rtModuleDirs_ctor (env(n \<mapsto> d)) g n"
  proof (cases "d = []")
    case True
    with c5 show ?thesis by simp
  next
    case False
    then have "rtModuleDirs_ctor (env(n \<mapsto> d)) g n = split_on (CHR '':'') d"
      by (simp add: rtModuleDirs_ctor_eq rtGetEnvAsString_set)
    with False c5 show ?thesis by simp
  qed
  have c7: "rtModuleDirs_ctor (env(n := None)) None n = []"
    by (simp add: rtModuleDirs_ctor_eq rtGetEnvAsString_unset rtString_of_cstr_def
        rtGetCurrentDirectory_def)
  show ?thesis
    by (intro conjI c1 c2 c3 c4 c5 c6 c7)
qed

subsection \<open>The singleton\<close>

lemma singleton_inv_initial: "singleton_inv (initial env g)"
  by (simp add: singleton_inv_def initial_def)

lemma singleton_inv_instance:
  "singleton_inv s \<Longrightarrow> singleton_inv (snd (rtModuleDirs_instance n s))"
  by (cases "mModuleInstance s")
     (simp_all add: singleton_inv_def rtModuleDirs_instance_def rtModuleDirs_new_def)

lemma singleton_inv_destroy:
  "singleton_inv s \<Longrightarrow> singleton_inv (rtModuleDirs_destroy s)"
  by (cases "mModuleInstance s")
     (auto simp: singleton_inv_def rtModuleDirs_destroy_def rtModuleDirs_delete_def)

lemma snd_rtGetRootModulePath:
  "snd (rtGetRootModulePath dflt file s) = snd (rtModuleDirs_instance dflt s)"
  by (simp add: rtGetRootModulePath_def split: prod.splits option.splits list.splits)

lemma snd_rtPathUtilPutEnv:
  "heap (snd (rtPathUtilPutEnv name v s)) = heap s
   \<and> mModuleInstance (snd (rtPathUtilPutEnv name v s)) = mModuleInstance s"
  by (simp add: rtPathUtilPutEnv_def split: option.splits prod.splits)

lemma singleton_inv_exec: "singleton_inv s \<Longrightarrow> singleton_inv (exec dflt op s)"
proof (cases op)
  case (Instance n)
  then show "singleton_inv s \<Longrightarrow> ?thesis" by (simp add: singleton_inv_instance)
next
  case Destroy
  then show "singleton_inv s \<Longrightarrow> ?thesis" by (simp add: singleton_inv_destroy)
next
  case Iterator
  then show "singleton_inv s \<Longrightarrow> ?thesis" by simp
next
  case (GetRootModulePath f)
  then show "singleton_inv s \<Longrightarrow> ?thesis"
    by (simp add: snd_rtGetRootModulePath singleton_inv_instance)
next
  case (PutEnv name v)
  then show "singleton_inv s \<Longrightarrow> ?thesis"
    using snd_rtPathUtilPutEnv [of name v s] by (simp add: singleton_inv_def)
next
  case (ChangeDirectory g)
  then show "singleton_inv s \<Longrightarrow> ?thesis" by (simp add: singleton_inv_def)
qed

lemma singleton_inv_run: "singleton_inv s \<Longrightarrow> singleton_inv (run dflt ops s)"
  unfolding run_def by (induction ops arbitrary: s) (simp_all add: singleton_inv_exec)

lemma instance_existing:
  "mModuleInstance s = Some p \<Longrightarrow> rtModuleDirs_instance n s = (p, s)"
  by (simp add: rtModuleDirs_instance_def)

lemma exec_keeps_instance:
  assumes "op \<noteq> Destroy" and "mModuleInstance s \<noteq> None"
  shows "heap (exec dflt op s) = heap s \<and> mModuleInstance (exec dflt op s) = mModuleInstance s"
proof -
  from assms(2) obtain p where p: "mModuleInstance s = Some p" by auto
  show ?thesis
  proof (cases op)
    case (Instance n)
    with p show ?thesis by (simp add: instance_existing)
  next
    case Destroy
    with assms(1) show ?thesis by simp
  next
    case Iterator
    then show ?thesis by simp
  next
    case (GetRootModulePath f)
    with p show ?thesis by (simp add: snd_rtGetRootModulePath instance_existing)
  next
    case (PutEnv name v)
    then show ?thesis using snd_rtPathUtilPutEnv [of name v s] by simp
  next
    case (ChangeDirectory g)
    then show ?thesis by simp
  qed
qed

lemma destroy_clears:
  "singleton_inv s \<Longrightarrow>
   mModuleInstance (rtModuleDirs_destroy s) = None \<and> heap (rtModuleDirs_destroy s) = []
   \<and> env_block (rtModuleDirs_destroy s) = env_block s
   \<and> getcwd_result (rtModuleDirs_destroy s) = getcwd_result s
   \<and> next_addr (rtModuleDirs_destroy s) = next_addr s"
  by (cases "mModuleInstance s")
     (auto simp: singleton_inv_def rtModuleDirs_destroy_def rtModuleDirs_delete_def)

lemma instance_fresh:
  "singleton_inv s \<Longrightarrow> mModuleInstance s = None \<Longrightarrow>
   heap (snd (rtModuleDirs_instance n s))
     = [(next_addr s, rtModuleDirs_ctor (env_block s) (getcwd_result s) n)]
   \<and> mModuleInstance (snd (rtModuleDirs_instance n s)) = Some (next_addr s)"
  by (simp add: singleton_inv_def rtModuleDirs_instance_def rtModuleDirs_new_def)

lemma run_keeps_instance:
  "Destroy \<notin> set ops' \<Longrightarrow> mModuleInstance s \<noteq> None \<Longrightarrow>
   heap (run dflt ops' s) = heap s \<and> mModuleInstance (run dflt ops' s) = mModuleInstance s"
proof (induction ops' arbitrary: s)
  case Nil
  then show ?case by (simp add: run_def)
next
  case (Cons op ops')
  from Cons.prems have k: "heap (exec dflt op s) = heap s"
      "mModuleInstance (exec dflt op s) = mModuleInstance s"
    using exec_keeps_instance [of op s dflt] by auto
  from Cons.prems k have "heap (run dflt ops' (exec dflt op s)) = heap (exec dflt op s)
      \<and> mModuleInstance (run dflt ops' (exec dflt op s)) = mModuleInstance (exec dflt op s)"
    by (intro Cons.IH) auto
  with k show ?case by (simp add: run_def)
qed

text \<open>
  C9. In every state that a sequence of calls reaches from the start of the process, at
  most one \<^verbatim>\<open>rtModuleDirs\<close> object is allocated, and it is the one the static pointer
  refers to. While an instance exists, no sequence of calls without \<open>destroy\<close> changes
  its directory list. \<open>destroy\<close> frees the object and clears the pointer, and the next
  \<open>instance\<close> call builds a new list from the environment as it is then.
\<close>

theorem singleton_lifecycle:
  "let s = run dflt ops (initial env g) in
     map fst (heap s) = (case mModuleInstance s of None \<Rightarrow> [] | Some p \<Rightarrow> [p])
   \<and> length (heap s) \<le> 1
   \<and> (Destroy \<notin> set ops' \<and> mModuleInstance s \<noteq> None \<longrightarrow>
        heap (run dflt ops' s) = heap s
        \<and> mModuleInstance (run dflt ops' s) = mModuleInstance s)
   \<and> mModuleInstance (exec dflt Destroy s) = None
   \<and> heap (exec dflt Destroy s) = []
   \<and> (mModuleInstance s = None \<longrightarrow>
        heap (exec dflt (Instance n) s)
          = [(next_addr s, rtModuleDirs_ctor (env_block s) (getcwd_result s) n)])
   \<and> heap (exec dflt (Instance n) (exec dflt Destroy s))
        = [(next_addr s, rtModuleDirs_ctor (env_block s) (getcwd_result s) n)]"
proof -
  define s where "s = run dflt ops (initial env g)"
  have inv: "singleton_inv s"
    unfolding s_def by (rule singleton_inv_run [OF singleton_inv_initial])
  have c1: "map fst (heap s) = (case mModuleInstance s of None \<Rightarrow> [] | Some p \<Rightarrow> [p])"
    using inv by (simp add: singleton_inv_def)
  have c2: "length (heap s) \<le> 1"
    using arg_cong [OF c1, of length] by (simp split: option.splits)
  have c3: "Destroy \<notin> set ops' \<and> mModuleInstance s \<noteq> None \<longrightarrow>
        heap (run dflt ops' s) = heap s
        \<and> mModuleInstance (run dflt ops' s) = mModuleInstance s"
    using run_keeps_instance by blast
  have c4: "mModuleInstance (exec dflt Destroy s) = None"
    and c5: "heap (exec dflt Destroy s) = []"
    using destroy_clears [OF inv] by simp_all
  have c6: "mModuleInstance s = None \<longrightarrow>
        heap (exec dflt (Instance n) s)
          = [(next_addr s, rtModuleDirs_ctor (env_block s) (getcwd_result s) n)]"
    using instance_fresh [OF inv] by simp
  have c7: "heap (exec dflt (Instance n) (exec dflt Destroy s))
        = [(next_addr s, rtModuleDirs_ctor (env_block s) (getcwd_result s) n)]"
    using instance_fresh [OF singleton_inv_destroy [OF inv], of n] destroy_clears [OF inv]
    by simp
  show ?thesis
    unfolding Let_def s_def [symmetric]
    by (intro conjI c1 c2 c3 c4 c5 c6 c7)
qed

text \<open>Unfolding rules that evaluate a run of calls on a given state.\<close>

lemmas eval_process = run_def initial_def rtModuleDirs_instance_def rtModuleDirs_new_def
  rtModuleDirs_ctor_eq rtGetEnvAsString_set rtGetEnvAsString_unset rtPathUtilPutEnv_def
  setenv_def unsetenv_def rtModuleDirs_destroy_def rtModuleDirs_delete_def
  rtString_of_cstr_def rtGetCurrentDirectory_def

theorem singleton_lifecycle_witness:
  "heap (run ''M'' [PutEnv ''P'' (Some ''/q''), Instance ''P'', Iterator]
          (run ''M'' [Instance ''P''] (initial (Map.empty(''P'' \<mapsto> ''/a:/b'')) None)))
     = [(0, [''/a'', ''/b''])]
   \<and> heap (exec ''M'' (Instance ''P'')
        (run ''M'' [Instance ''P'', PutEnv ''P'' (Some ''/q''), Destroy]
           (initial (Map.empty(''P'' \<mapsto> ''/a:/b'')) None)))
     = [(1, [''/q''])]"
  using singleton_lifecycle [where dflt = "''M''" and ops = "[Instance ''P'']"
      and env = "Map.empty(''P'' \<mapsto> ''/a:/b'')" and g = None
      and ops' = "[PutEnv ''P'' (Some ''/q''), Instance ''P'', Iterator]" and n = "''P''"]
    singleton_lifecycle [where dflt = "''M''"
      and ops = "[Instance ''P'', PutEnv ''P'' (Some ''/q''), Destroy]"
      and env = "Map.empty(''P'' \<mapsto> ''/a:/b'')" and g = None
      and ops' = "[]" and n = "''P''"]
  by (simp add: Let_def eval_process)

lemma heap_after_instance:
  assumes "singleton_inv s"
  shows "\<exists>l. heap (snd (rtModuleDirs_instance n s)) = [(fst (rtModuleDirs_instance n s), l)]"
proof (cases "mModuleInstance s")
  case None
  with assms show ?thesis
    by (simp add: singleton_inv_def rtModuleDirs_instance_def rtModuleDirs_new_def)
next
  case (Some p)
  with assms have "map fst (heap s) = [p]" by (simp add: singleton_inv_def)
  then obtain l where "heap s = [(p, l)]" by auto
  with Some show ?thesis by (simp add: rtModuleDirs_instance_def)
qed

lemma rtGetRootModulePath_by_heap:
  assumes "singleton_inv s"
  shows "fst (rtGetRootModulePath dflt f s)
     = (case snd (hd (heap (snd (rtModuleDirs_instance dflt s)))) of
          [] \<Rightarrow> Inl Deref_past_the_end
        | rootDir # _ \<Rightarrow>
            Inr (rtConcatenatePath rootDir (case f of None \<Rightarrow> [] | Some x \<Rightarrow> x)))"
proof -
  obtain p s' where ps: "rtModuleDirs_instance dflt s = (p, s')"
    by (cases "rtModuleDirs_instance dflt s")
  with heap_after_instance [OF assms, of dflt] obtain l where h: "heap s' = [(p, l)]"
    by auto
  show ?thesis
    by (cases l) (simp_all add: rtGetRootModulePath_def rtModuleDirs_iterator_def ps h)
qed

lemma rtModuleDirs_ctor_empty:
  "(rtModuleDirs_ctor env g n = []) = (rtString_of_cstr (env n) = [] \<and> rtString_of_cstr g = [])"
  by (auto simp: rtModuleDirs_ctor_eq rtGetEnvAsString_def rtGetEnv_def getenv_def
      rtString_isEmpty_def rtGetCurrentDirectory_def rtString_of_cstr_def
      split: option.splits)

text \<open>
  C10. \<open>rtGetRootModulePath\<close> dereferences the first entry of the module directory list
  without a check: it yields a path exactly when the list of the instance is not empty and
  reads past the end of the list otherwise. On a fresh process the list is empty exactly
  when the environment variable is unset or empty and the working directory fallback is
  empty as well.
\<close>

theorem rtGetRootModulePath_needs_entry:
  "(let s = run dflt ops (initial env g) in
      fst (rtGetRootModulePath dflt f s)
        = (case snd (hd (heap (snd (rtModuleDirs_instance dflt s)))) of
             [] \<Rightarrow> Inl Deref_past_the_end
           | rootDir # _ \<Rightarrow>
               Inr (rtConcatenatePath rootDir (case f of None \<Rightarrow> [] | Some x \<Rightarrow> x))))
   \<and> fst (rtGetRootModulePath dflt f (initial env g))
        = (case rtModuleDirs_ctor env g dflt of
             [] \<Rightarrow> Inl Deref_past_the_end
           | rootDir # _ \<Rightarrow>
               Inr (rtConcatenatePath rootDir (case f of None \<Rightarrow> [] | Some x \<Rightarrow> x)))
   \<and> (rtModuleDirs_ctor env g dflt = [])
        = (rtString_of_cstr (env dflt) = [] \<and> rtString_of_cstr g = [])
   \<and> fst (rtGetRootModulePath dflt f (initial (env(dflt := None)) None))
        = Inl Deref_past_the_end
   \<and> fst (rtGetRootModulePath dflt f (initial (env(dflt \<mapsto> [])) None))
        = Inl Deref_past_the_end
   \<and> fst (rtGetRootModulePath ''M'' (Some ''init.js'')
            (initial (Map.empty(''M'' \<mapsto> ''/opt/mods:/usr/mods'')) None))
        = Inr ''/opt/mods/init.js''"
proof -
  have inv: "singleton_inv (run dflt ops (initial env g))"
    by (rule singleton_inv_run [OF singleton_inv_initial])
  have c1: "let s = run dflt ops (initial env g) in
      fst (rtGetRootModulePath dflt f s)
        = (case snd (hd (heap (snd (rtModuleDirs_instance dflt s)))) of
             [] \<Rightarrow> Inl Deref_past_the_end
           | rootDir # _ \<Rightarrow>
               Inr (rtConcatenatePath rootDir (case f of None \<Rightarrow> [] | Some x \<Rightarrow> x)))"
    unfolding Let_def by (rule rtGetRootModulePath_by_heap [OF inv])
  have c2: "fst (rtGetRootModulePath dflt f (initial env' g'))
        = (case rtModuleDirs_ctor env' g' dflt of
             [] \<Rightarrow> Inl Deref_past_the_end
           | rootDir # _ \<Rightarrow>
               Inr (rtConcatenatePath rootDir (case f of None \<Rightarrow> [] | Some x \<Rightarrow> x)))"
    for env' g' dflt f
    using rtGetRootModulePath_by_heap [OF singleton_inv_initial, of dflt f env' g']
    by (simp add: initial_def rtModuleDirs_instance_def rtModuleDirs_new_def)
  have c4: "fst (rtGetRootModulePath dflt f (initial (env(dflt := None)) None))
        = Inl Deref_past_the_end"
    by (simp add: c2 rtModuleDirs_ctor_eq rtGetEnvAsString_unset rtString_of_cstr_def
        rtGetCurrentDirectory_def)
  have c5: "fst (rtGetRootModulePath dflt f (initial (env(dflt \<mapsto> [])) None))
        = Inl Deref_past_the_end"
    by (simp add: c2 rtModuleDirs_ctor_eq rtGetEnvAsString_set rtString_of_cstr_def
        rtGetCurrentDirectory_def)
  have c6: "fst (rtGetRootModulePath ''M'' (Some ''init.js'')
            (initial (Map.empty(''M'' \<mapsto> ''/opt/mods:/usr/mods'')) None))
        = Inr ''/opt/mods/init.js''"
    by (simp add: c2 rtModuleDirs_ctor_eq rtGetEnvAsString_set rtConcatenatePath_def
        rtEnsureTrailingPathSeparator_def rtString_endsWith_def rtString_append_def)
  show ?thesis
    by (intro conjI c1 c2 rtModuleDirs_ctor_empty c4 c5 c6)
qed

subsection \<open>Creation of a directory and of its ancestors\<close>

lemma filter_upt_absent:
  "ch \<notin> set (drop k s) \<Longrightarrow> filter (\<lambda>i. s ! i = ch) [k..<length s] = []"
proof -
  assume a: "ch \<notin> set (drop k s)"
  have "s ! i \<noteq> ch" if "k \<le> i" "i < length s" for i
  proof -
    from that have "s ! i = drop k s ! (i - k)" and "i - k < length (drop k s)" by simp_all
    with a show ?thesis by (metis nth_mem)
  qed
  then show ?thesis by (simp add: filter_empty_conv)
qed

lemma filter_upt_first:
  assumes "ch \<in> set (drop k s)"
  defines "j \<equiv> k + length (takeWhile (\<lambda>c. c \<noteq> ch) (drop k s))"
  shows "filter (\<lambda>i. s ! i = ch) [k..<length s] = j # filter (\<lambda>i. s ! i = ch) [Suc j..<length s]"
proof -
  let ?tw = "takeWhile (\<lambda>c. c \<noteq> ch) (drop k s)"
  have lt: "length ?tw < length (drop k s)"
    by (rule takeWhile_stops_before_end [OF assms(1)])
  then have jn: "j < length s" and kj: "k \<le> j" by (simp_all add: j_def)
  have at: "s ! j = ch"
    using nth_length_takeWhile [OF lt] lt by (simp add: j_def)
  have before: "s ! i \<noteq> ch" if "k \<le> i" "i < j" for i
  proof -
    from that have il: "i - k < length ?tw" by (simp add: j_def)
    then have "?tw ! (i - k) \<in> set ?tw" by (rule nth_mem)
    then have "?tw ! (i - k) \<noteq> ch" by (metis (mono_tags, lifting) set_takeWhileD)
    moreover have "?tw ! (i - k) = drop k s ! (i - k)"
      using il by (rule takeWhile_nth)
    moreover have "drop k s ! (i - k) = s ! i"
      using that jn by simp
    ultimately show ?thesis by simp
  qed
  have "[k..<length s] = [k..<j] @ j # [Suc j..<length s]"
    using kj jn by (metis le_Suc_ex less_imp_le_nat upt_add_eq_append upt_conv_Cons)
  moreover have "filter (\<lambda>i. s ! i = ch) [k..<j] = []"
    using before by (simp add: filter_empty_conv)
  ultimately show ?thesis using at by simp
qed

lemma segments_from_unfold:
  "segments_from s k =
     (if rtString_find s k (CHR ''/'') = - 1 then [s]
      else take (nat (rtString_find s k (CHR ''/'') + 1)) s
           # segments_from s (nat (rtString_find s k (CHR ''/'') + 1)))"
proof (cases "CHR ''/'' \<in> set (drop k s)")
  case False
  then show ?thesis
    by (simp add: segments_from_def rtString_find_def filter_upt_absent)
next
  case True
  define j where "j = k + length (takeWhile (\<lambda>c. c \<noteq> CHR ''/'') (drop k s))"
  have f: "rtString_find s k (CHR ''/'') = int j"
    using True by (simp add: rtString_find_def j_def)
  have n: "nat (int j + 1) = Suc j" by simp
  show ?thesis
    unfolding f n segments_from_def
    using filter_upt_first [OF True] by (simp add: j_def)
qed

lemma mkdir_loop_create_all:
  "retVal = 0 \<Longrightarrow>
   (fst (mkdir_loop dir i retVal fs) = 0, snd (mkdir_loop dir i retVal fs))
   = create_all (segments_from dir (nat (i + 1))) fs"
proof (induction dir i retVal fs rule: mkdir_loop.induct)
  case (1 dir i retVal fs)
  define pos where "pos = rtString_find dir (nat (i + 1)) (CHR ''/'')"
  define sub where "sub = (if pos = - 1 then dir else rtString_substring dir 0 (nat (pos + 1)))"
  define rest where "rest = (if pos = - 1 then [] else segments_from dir (nat (pos + 1)))"
  have segs: "segments_from dir (nat (i + 1)) = sub # rest"
    by (subst segments_from_unfold)
       (simp add: pos_def sub_def rest_def rtString_substring_def)
  have step: "mkdir_loop dir i retVal fs =
     (if \<not> rtFileExists fs sub
      then (case mkdir fs sub of
              (r, fs') \<Rightarrow>
                if r \<noteq> 0 then (r, fs')
                else if pos \<noteq> - 1 then mkdir_loop dir pos r fs' else (r, fs'))
      else if pos \<noteq> - 1 then mkdir_loop dir pos retVal fs else (retVal, fs))"
    unfolding sub_def pos_def
    by (subst mkdir_loop.simps [of dir i retVal fs]) (simp only: Let_def)
  show ?case
  proof (cases "rtFileExists fs sub")
    case True
    show ?thesis
    proof (cases "pos = - 1")
      case e: True
      with True "1.prems" show ?thesis
        unfolding segs step by (simp add: rest_def)
    next
      case ne: False
      have ih: "(fst (mkdir_loop dir pos retVal fs) = 0, snd (mkdir_loop dir pos retVal fs))
          = create_all (segments_from dir (nat (pos + 1))) fs"
        using "1.IH"(2) [OF pos_def sub_def _ _ "1.prems"] True ne by simp
      with True ne show ?thesis
        unfolding segs step by (simp add: rest_def)
    qed
  next
    case False
    obtain r fs' where m: "mkdir fs sub = (r, fs')" by (cases "mkdir fs sub")
    show ?thesis
    proof (cases "r = 0")
      case bad: False
      with False m show ?thesis
        unfolding segs step by simp
    next
      case ok: True
      show ?thesis
      proof (cases "pos = - 1")
        case e: True
        with False ok m show ?thesis
          unfolding segs step by (simp add: rest_def)
      next
        case ne: False
        have ih: "(fst (mkdir_loop dir pos r fs') = 0, snd (mkdir_loop dir pos r fs'))
            = create_all (segments_from dir (nat (pos + 1))) fs'"
          using "1.IH"(1) [OF pos_def sub_def _ m [symmetric] _ _ ok] False ne ok by simp
        with False ok m ne show ?thesis
          unfolding segs step by (simp add: rest_def)
      qed
    qed
  qed
qed

lemma segments_from_0: "segments p = segments_from p 0"
  by (simp add: segments_def segments_from_def)

lemma rtFileExists_root: "rtFileExists fs ''/''"
  by (simp add: rtFileExists_def stat_def start_dir_def cstr_first_def components_def lookup_def)

lemma create_all_skip_root:
  "create_all (segments_from p 0) fs = create_all (segments_from p (Suc 0)) fs"
proof (cases p)
  case Nil
  then show ?thesis by (simp add: segments_from_def)
next
  case (Cons c cs)
  then have "0 < length p" by simp
  then have u: "[0..<length p] = 0 # [Suc 0..<length p]"
    by (rule upt_conv_Cons)
  show ?thesis
  proof (cases "c = CHR ''/''")
    case True
    with Cons have "segments_from p 0 = ''/'' # segments_from p (Suc 0)"
      unfolding segments_from_def u by simp
    then show ?thesis by (simp add: rtFileExists_root)
  next
    case False
    with Cons have "segments_from p 0 = segments_from p (Suc 0)"
      unfolding segments_from_def u by simp
    then show ?thesis by simp
  qed
qed

lemma rtMakeDirectory_create_all: "rtMakeDirectory p fs = create_all (segments p) fs"
proof -
  have "rtMakeDirectory p fs = (fst (mkdir_loop p 0 0 fs) = 0, snd (mkdir_loop p 0 0 fs))"
    by (simp add: rtMakeDirectory_def split: prod.splits)
  also have "\<dots> = create_all (segments_from p (nat (0 + 1))) fs"
    by (rule mkdir_loop_create_all) simp
  also have "\<dots> = create_all (segments p) fs"
    by (simp add: segments_from_0 create_all_skip_root)
  finally show ?thesis .
qed

lemma fs_le_refl: "fs_le fs fs"
  by (simp add: fs_le_def)

lemma fs_le_trans: "fs_le a b \<Longrightarrow> fs_le b c \<Longrightarrow> fs_le a c"
  by (simp add: fs_le_def)

lemma is_dir_mono: "fs_le fs fs' \<Longrightarrow> is_dir fs cs \<Longrightarrow> is_dir fs' cs"
  by (simp add: fs_le_def is_dir_def)

lemma walk_mono: "fs_le fs fs' \<Longrightarrow> walk fs cur cs = Some t \<Longrightarrow> walk fs' cur cs = Some t"
proof (induction cs arbitrary: cur)
  case Nil
  then show ?case by simp
next
  case (Cons c cs)
  from Cons.prems(2) have d: "is_dir fs cur" by (simp split: if_splits)
  with Cons.prems(1) have d': "is_dir fs' cur" by (rule is_dir_mono)
  from Cons.prems d d' Cons.IH show ?case by (simp split: if_splits)
qed

lemma stat_mono: "fs_le fs fs' \<Longrightarrow> stat fs f = 0 \<Longrightarrow> stat fs' f = 0"
proof -
  assume le: "fs_le fs fs'" and st: "stat fs f = 0"
  from le have sd: "start_dir fs' f = start_dir fs f" by (simp add: start_dir_def fs_le_def)
  from st have ne: "f \<noteq> []" by (auto simp: stat_def)
  from st ne obtain t where w: "walk fs (start_dir fs f) (components f) = Some t"
    by (auto simp: stat_def split: option.splits)
  from st ne w obtain e where l: "lookup fs t = Some e"
    by (auto simp: stat_def split: option.splits)
  from le l have l': "lookup fs' t = Some e" by (simp add: fs_le_def)
  from walk_mono [OF le w] have w': "walk fs' (start_dir fs' f) (components f) = Some t"
    by (simp add: sd)
  from st ne w l show ?thesis by (simp add: stat_def w' l')
qed

lemma rtFileExists_mono: "fs_le fs fs' \<Longrightarrow> rtFileExists fs f \<Longrightarrow> rtFileExists fs' f"
  by (simp add: rtFileExists_def stat_mono)

lemma mkdir_cases:
  assumes "mkdir fs p = (r, fs')"
  shows "(r = - 1 \<and> fs' = fs) \<or>
         (r = 0 \<and> p \<noteq> [] \<and> components p \<noteq> [] \<and>
          (\<exists>d. walk fs (start_dir fs p) (butlast (components p)) = Some d \<and> is_dir fs d
               \<and> last (components p) \<noteq> ''.'' \<and> last (components p) \<noteq> ''..''
               \<and> lookup fs (d @ [last (components p)]) = None
               \<and> fs' = fs\<lparr>entries := entries fs @ [(d @ [last (components p)], Directory)]\<rparr>))"
  using assms by (auto simp: mkdir_def split: if_splits option.splits)

lemma mkdir_failure: "mkdir fs p = (r, fs') \<Longrightarrow> r \<noteq> 0 \<Longrightarrow> fs' = fs"
  using mkdir_cases by fastforce

lemma lookup_extend:
  "k \<noteq> [] \<Longrightarrow> lookup fs k = None \<Longrightarrow>
   fs_le fs (fs\<lparr>entries := entries fs @ [(k, Directory)]\<rparr>)
   \<and> lookup (fs\<lparr>entries := entries fs @ [(k, Directory)]\<rparr>) k = Some Directory"
  by (auto simp: fs_le_def lookup_def map_add_def split: option.splits)

lemma mkdir_fs_le: "mkdir fs p = (r, fs') \<Longrightarrow> fs_le fs fs'"
  using mkdir_cases [of fs p r fs'] lookup_extend fs_le_refl by fastforce


lemma walk_append:
  "walk fs cur (cs @ ds) = (case walk fs cur cs of None \<Rightarrow> None | Some u \<Rightarrow> walk fs u ds)"
  by (induction cs arbitrary: cur) auto

lemma walk_Cons_is_dir: "walk fs u (d # ds) = Some t \<Longrightarrow> is_dir fs u"
  by (simp split: if_splits)

lemma mkdir_success: "mkdir fs p = (0, fs') \<Longrightarrow> rtFileExists fs' p"
proof -
  assume m: "mkdir fs p = (0, fs')"
  define l where "l = last (components p)"
  from mkdir_cases [OF m] obtain d where
    ne: "p \<noteq> []" and cne: "components p \<noteq> []"
    and w: "walk fs (start_dir fs p) (butlast (components p)) = Some d"
    and dd: "is_dir fs d" and l1: "l \<noteq> ''.''" and l2: "l \<noteq> ''..''"
    and lk: "lookup fs (d @ [l]) = None"
    and fs': "fs' = fs\<lparr>entries := entries fs @ [(d @ [l], Directory)]\<rparr>"
    unfolding l_def by auto
  from lookup_extend [OF _ lk] have le: "fs_le fs fs'"
    and lk': "lookup fs' (d @ [l]) = Some Directory"
    by (simp_all add: fs')
  have sd: "start_dir fs' p = start_dir fs p" by (simp add: start_dir_def fs')
  have cs: "components p = butlast (components p) @ [l]"
    using cne by (simp add: l_def)
  have "walk fs' (start_dir fs' p) (components p) = walk fs' d [l]"
    by (subst cs) (simp add: walk_append walk_mono [OF le w] sd)
  also have "\<dots> = Some (d @ [l])"
    using is_dir_mono [OF le dd] l1 l2 by simp
  finally show ?thesis
    using ne lk' by (simp add: rtFileExists_def stat_def)
qed

lemma split_on_append_sep:
  "split_on c (xs @ c # ys) = split_on c xs @ split_on c ys"
proof (induction xs)
  case Nil
  then show ?case by simp
next
  case (Cons x xs)
  obtain g gs where g: "split_on c xs = g # gs"
    by (cases "split_on c xs") (simp_all add: split_on_not_Nil)
  with Cons show ?case by simp
qed

lemma components_append_sep:
  "components (xs @ CHR ''/'' # ys) = components xs @ components ys"
  by (simp add: components_def split_on_append_sep)

lemma components_Nil: "components [] = []"
  by (simp add: components_def)

lemma components_empty_slashes: "components r = [] \<Longrightarrow> r = [] \<or> last r = CHR ''/''"
proof (induction r)
  case Nil
  then show ?case by simp
next
  case (Cons c cs)
  obtain g gs where g: "split_on (CHR ''/'') cs = g # gs"
    by (cases "split_on (CHR ''/'') cs") (simp_all add: split_on_not_Nil)
  show ?case
  proof (cases "c = CHR ''/''")
    case True
    with Cons.prems have "components cs = []" by (simp add: components_def)
    with Cons.IH True show ?thesis by auto
  next
    case False
    with Cons.prems g show ?thesis by (simp add: components_def)
  qed
qed

lemma stat_prefix:
  assumes st: "stat fs p = 0" and i: "i < length p" and sep: "p ! i = CHR ''/''"
  shows "stat fs (take (Suc i) p) = 0"
proof -
  define q where "q = take (Suc i) p"
  define rest where "rest = drop (Suc i) p"
  have q: "q = take i p @ ''/''"
    using i sep by (simp add: q_def take_Suc_conv_app_nth)
  have p: "p = take i p @ CHR ''/'' # rest"
    using id_take_nth_drop [OF i] sep by (simp add: rest_def)
  have pq: "p = q @ rest" by (simp add: q_def rest_def)
  have qne: "q \<noteq> []" and ql: "last q = CHR ''/''" by (simp_all add: q)
  have pne: "p \<noteq> []" using i by auto
  have "cstr_first q = cstr_first p"
    using pne qne pq by (cases q) (simp_all add: cstr_first_def)
  then have sd: "start_dir fs q = start_dir fs p" by (simp add: start_dir_def)
  have cq: "components q = components (take i p)"
    using components_append_sep [of "take i p" "[]"] by (simp add: q components_Nil)
  have cp: "components p = components q @ components rest"
    by (subst p) (simp add: components_append_sep cq)
  from st pne obtain t where w: "walk fs (start_dir fs p) (components p) = Some t"
    by (auto simp: stat_def split: option.splits)
  from st pne w obtain e where l: "lookup fs t = Some e"
    by (auto simp: stat_def split: option.splits)
  from w obtain u where wq: "walk fs (start_dir fs p) (components q) = Some u"
    and wr: "walk fs u (components rest) = Some t"
    unfolding cp walk_append by (auto split: option.splits)
  have "lookup fs u = Some Directory"
  proof (cases "components rest")
    case Nil
    with wr have tu: "t = u" by simp
    from components_empty_slashes [OF Nil] have "last p = CHR ''/''"
      using pq ql by (cases "rest = []") auto
    with st pne w l have "e = Directory"
      by (cases e) (simp_all add: stat_def)
    with l tu show ?thesis by simp
  next
    case (Cons d ds)
    with wr have "walk fs u (d # ds) = Some t" by simp
    then have "is_dir fs u" by (rule walk_Cons_is_dir)
    then show ?thesis by (simp add: is_dir_def)
  qed
  with wq qne show ?thesis
    by (simp add: stat_def sd q_def [symmetric])
qed

lemma segment_exists:
  assumes "q \<in> set (segments p)" and "rtFileExists fs p"
  shows "rtFileExists fs q"
proof -
  from assms(1) consider "q = p" | i where "i < length p" "p ! i = CHR ''/''" "q = take (Suc i) p"
    by (auto simp: segments_def)
  then show ?thesis
  proof cases
    case 1
    with assms(2) show ?thesis by simp
  next
    case 2
    with assms(2) show ?thesis by (simp add: rtFileExists_def stat_prefix)
  qed
qed

lemma create_all_fs_le: "create_all qs fs = (b, fs') \<Longrightarrow> fs_le fs fs'"
proof (induction qs arbitrary: fs)
  case Nil
  then show ?case by (simp add: fs_le_refl)
next
  case (Cons q qs)
  show ?case
  proof (cases "rtFileExists fs q")
    case True
    with Cons show ?thesis by simp
  next
    case False
    obtain r fs1 where m: "mkdir fs q = (r, fs1)" by (cases "mkdir fs q")
    show ?thesis
    proof (cases "r = 0")
      case True
      with False m Cons.prems have "create_all qs fs1 = (b, fs')" by simp
      then have "fs_le fs1 fs'" by (rule Cons.IH)
      with mkdir_fs_le [OF m] show ?thesis by (rule fs_le_trans)
    next
      case False
      with \<open>\<not> rtFileExists fs q\<close> m Cons.prems have "fs' = fs1" by simp
      with mkdir_fs_le [OF m] show ?thesis by simp
    qed
  qed
qed

lemma create_all_success:
  "create_all qs fs = (True, fs') \<Longrightarrow> q \<in> set qs \<Longrightarrow> rtFileExists fs' q"
proof (induction qs arbitrary: fs)
  case Nil
  then show ?case by simp
next
  case (Cons q0 qs)
  show ?case
  proof (cases "rtFileExists fs q0")
    case True
    with Cons.prems(1) have c: "create_all qs fs = (True, fs')" by simp
    show ?thesis
    proof (cases "q = q0")
      case True
      with \<open>rtFileExists fs q0\<close> create_all_fs_le [OF c] show ?thesis
        by (simp add: rtFileExists_mono)
    next
      case False
      with Cons.prems(2) have "q \<in> set qs" by simp
      with c show ?thesis by (rule Cons.IH)
    qed
  next
    case False
    obtain r fs1 where m: "mkdir fs q0 = (r, fs1)" by (cases "mkdir fs q0")
    with False Cons.prems(1) have r: "r = 0" and c: "create_all qs fs1 = (True, fs')"
      by (simp_all split: if_splits)
    show ?thesis
    proof (cases "q = q0")
      case True
      from m r have "rtFileExists fs1 q0" by (simp add: mkdir_success)
      with True create_all_fs_le [OF c] show ?thesis
        by (simp add: rtFileExists_mono)
    next
      case False
      with Cons.prems(2) have "q \<in> set qs" by simp
      with c show ?thesis by (rule Cons.IH)
    qed
  qed
qed

lemma create_all_failure:
  assumes "\<And>q fs0. q \<in> set qs \<Longrightarrow> rtFileExists fs0 p \<Longrightarrow> rtFileExists fs0 q"
    and "create_all qs fs = (False, fs')"
  shows "\<not> rtFileExists fs' p"
  using assms
proof (induction qs arbitrary: fs)
  case Nil
  then show ?case by simp
next
  case (Cons q0 qs)
  have sub: "\<And>q fs0. q \<in> set qs \<Longrightarrow> rtFileExists fs0 p \<Longrightarrow> rtFileExists fs0 q"
    using Cons.prems(1) by simp
  show ?case
  proof (cases "rtFileExists fs q0")
    case True
    with Cons.prems(2) have "create_all qs fs = (False, fs')" by simp
    with sub show ?thesis by (rule Cons.IH)
  next
    case False
    obtain r fs1 where m: "mkdir fs q0 = (r, fs1)" by (cases "mkdir fs q0")
    show ?thesis
    proof (cases "r = 0")
      case True
      with False m Cons.prems(2) have "create_all qs fs1 = (False, fs')" by simp
      with sub show ?thesis by (rule Cons.IH)
    next
      case bad: False
      with False m Cons.prems(2) have "fs' = fs1" by simp
      with mkdir_failure [OF m bad] have "fs' = fs" by simp
      moreover have "\<not> rtFileExists fs p"
        using Cons.prems(1) [of q0 fs] False by auto
      ultimately show ?thesis by simp
    qed
  qed
qed

lemma rtMakeDirectory_iff_exists:
  "fst (rtMakeDirectory p fs) = rtFileExists (snd (rtMakeDirectory p fs)) p"
proof -
  obtain b fs' where c: "create_all (segments p) fs = (b, fs')"
    by (cases "create_all (segments p) fs")
  have mem: "p \<in> set (segments p)" by (simp add: segments_def)
  show ?thesis
  proof (cases b)
    case True
    with c mem have "rtFileExists fs' p" by (auto intro: create_all_success)
    with True c show ?thesis by (simp add: rtMakeDirectory_create_all)
  next
    case False
    with c have "create_all (segments p) fs = (False, fs')" by simp
    then have "\<not> rtFileExists fs' p"
      by (rule create_all_failure [rotated]) (rule segment_exists)
    with False c show ?thesis by (simp add: rtMakeDirectory_create_all)
  qed
qed

lemma create_all_step:
  "create_all (q # qs) fs =
     (if rtFileExists fs q then create_all qs fs
      else if fst (mkdir fs q) = 0 then create_all qs (snd (mkdir fs q))
      else (False, fs))"
proof (cases "mkdir fs q")
  case (Pair r fs')
  then show ?thesis
    using mkdir_failure [OF Pair] by auto
qed

text \<open>
  C2. For every path and every file system, \<open>rtMakeDirectory\<close> goes through the
  prefixes of the path that end in a separator, from left to right, and then through the
  path itself: a prefix that exists is skipped, a missing one is created, and the first
  creation that fails ends the run, leaves the file system as it is and gives \<open>False\<close>.
  The answer is \<open>True\<close> exactly when the full path exists afterwards. On the empty file
  system \<open>a/b/c/\<close> creates \<open>a\<close>, \<open>a/b\<close> and \<open>a/b/c\<close> in this order and gives \<open>True\<close>, and
  so does a second call, which creates nothing.
\<close>

theorem rtMakeDirectory_creates_missing_segments:
  "rtMakeDirectory p fs = create_all (segments p) fs
   \<and> create_all (q # qs) fs =
       (if rtFileExists fs q then create_all qs fs
        else if fst (mkdir fs q) = 0 then create_all qs (snd (mkdir fs q))
        else (False, fs))
   \<and> fst (rtMakeDirectory p fs) = rtFileExists (snd (rtMakeDirectory p fs)) p
   \<and> segments ''a/b/c/'' = [''a/'', ''a/b/'', ''a/b/c/'', ''a/b/c/'']
   \<and> rtMakeDirectory ''a/b/c/'' \<lparr>entries = [], cwd = []\<rparr>
       = (True, \<lparr>entries = [([''a''], Directory), ([''a'', ''b''], Directory),
                             ([''a'', ''b'', ''c''], Directory)], cwd = []\<rparr>)
   \<and> rtMakeDirectory ''a/b/c/''
         (snd (rtMakeDirectory ''a/b/c/'' \<lparr>entries = [], cwd = []\<rparr>))
       = (True, \<lparr>entries = [([''a''], Directory), ([''a'', ''b''], Directory),
                             ([''a'', ''b'', ''c''], Directory)], cwd = []\<rparr>)"
proof -
  have c4: "segments ''a/b/c/'' = [''a/'', ''a/b/'', ''a/b/c/'', ''a/b/c/'']"
    by code_simp
  have c5: "rtMakeDirectory ''a/b/c/'' \<lparr>entries = [], cwd = []\<rparr>
       = (True, \<lparr>entries = [([''a''], Directory), ([''a'', ''b''], Directory),
                             ([''a'', ''b'', ''c''], Directory)], cwd = []\<rparr>)"
    by code_simp
  have c6: "rtMakeDirectory ''a/b/c/''
         (snd (rtMakeDirectory ''a/b/c/'' \<lparr>entries = [], cwd = []\<rparr>))
       = (True, \<lparr>entries = [([''a''], Directory), ([''a'', ''b''], Directory),
                             ([''a'', ''b'', ''c''], Directory)], cwd = []\<rparr>)"
    by code_simp
  show ?thesis
    by (intro conjI rtMakeDirectory_create_all create_all_step rtMakeDirectory_iff_exists
        c4 c5 c6)
qed


end
